theory Spec2Isabelle
  imports Main "HOL-Library.Word"
begin

section \<open>The blob manager of the plate file (src/vw/Plate/BlobManager.cc)\<close>

text \<open>
  The blob manager hands out exclusive write access to numbered blobs. It keeps one
  record per blob (a lock flag and the offset up to which the blob is written), a
  rotating index at which the next search starts, the size from which a blob counts
  as full, and the number of blobs it may create.

  Modelling decisions:
  \<^item> the byte quantities (\<open>int64 max_blob_size\<close>, \<open>uint64 blob_offset\<close>, \<open>int64 size\<close>)
    are 64-bit words; \<open>*\<close> on them wraps, and \<open><\<close> compares them as unsigned values,
    as C++ compares a \<open>uint64\<close> with an \<open>int64\<close>;
  \<^item> the \<open>int\<close> quantities (blob ids, the blob index, the constructor's counts) are
    HOL integers: every index the code computes lies between \<open>-1\<close> and the length of the
    vector, so no \<open>int\<close> operation of the code leaves the 32-bit range while the vector
    has fewer than \<open>2^31\<close> records;
  \<^item> \<open>std::vector<BlobRecord>\<close> is a list; \<open>m_blob_locks[i]\<close> outside the vector is
    undefined behaviour in C++ and the value \<open>None\<close> here;
  \<^item> an exception is a value: the constructor returns \<open>exn + blob_manager\<close>, and
    \<open>request_lock\<close> returns the exception or the blob id together with the manager as
    the call leaves it (the index stays advanced when \<open>BlobLimitErr\<close> is thrown);
  \<^item> the mutex serialises the public methods, so each call is one step on the state;
    the condition variable that \<open>release_lock\<close> notifies has no waiter in this file
    and no state.
\<close>

subsection \<open>Data\<close>

text \<open>
  Modelled from the spec: the struct \<open>BlobRecord\<close> is declared in BlobManager.h, which
  is not among the sources. The spec's Segment Record has a lock flag and a write
  cursor in bytes, at least 0; \<open>release_lock\<close> stores a \<open>uint64\<close> into it.
\<close>

record BlobRecord =
  locked :: bool
  current_blob_offset :: "64 word"

text \<open>
  Modelled from the spec: the members of the class are declared in BlobManager.h, which
  is not among the sources. \<open>m_max_blob_size\<close> is the 64-bit value that
  \<open>max_blob_size()\<close> returns. \<open>m_blob_index\<close> is the \<open>int\<close> that
  \<open>increment_blob_index(int &)\<close> is called on. \<open>m_max_blobs\<close> is the spec's hard cap
  on the number of records; its one use is the comparison
  \<open>m_blob_locks.size() >= m_max_blobs\<close> against a \<open>size_t\<close>, which C++ carries out on
  unsigned values, so the member is kept as the natural number that this comparison reads.
\<close>

record blob_manager =
  m_max_blob_size :: "64 word"
  m_max_blobs :: nat
  m_blob_index :: int
  m_blob_locks :: "BlobRecord list"

text \<open>
  The exceptions the code throws: \<open>ArgumentErr\<close> is the spec's InvalidArgument and
  \<open>BlobLimitErr\<close> its CapacityExceeded.
\<close>

datatype exn = ArgumentErr | BlobLimitErr

text \<open>The value an \<open>int\<close> has once C++ converts it to \<open>size_t\<close> (64 bits).\<close>

definition size_t_of_int :: "int \<Rightarrow> nat" where
  "size_t_of_int i = nat (i mod 2 ^ 64)"

text \<open>\<open>m_blob_locks[i]\<close> for an \<open>int\<close> i: \<open>None\<close> outside the vector.\<close>

definition blob_at :: "BlobRecord list \<Rightarrow> int \<Rightarrow> BlobRecord option" where
  "blob_at blobs i =
     (if 0 \<le> i \<and> i < int (length blobs) then Some (blobs ! nat i) else None)"

text \<open>
  The test both searches of \<open>get_next_available_blob\<close> apply to a record:
  \<open>!(rec.locked) && rec.current_blob_offset < m_max_blob_size\<close>.
\<close>

definition unlocked_and_not_full :: "blob_manager \<Rightarrow> BlobRecord \<Rightarrow> bool" where
  "unlocked_and_not_full m rec \<longleftrightarrow>
     \<not> locked rec \<and> current_blob_offset rec < m_max_blob_size m"

subsection \<open>The private methods\<close>

text \<open>
  \<open>increment_blob_index\<close> is only ever called on \<open>m_blob_index\<close>: it adds one and goes
  back to 0 at the end of the vector.
\<close>

definition increment_blob_index :: "blob_manager \<Rightarrow> blob_manager" where
  "increment_blob_index m =
     (let blob_index = m_blob_index m + 1 in
      m\<lparr>m_blob_index :=
          (if int (length (m_blob_locks m)) \<le> blob_index then 0 else blob_index)\<rparr>)"

text \<open>
  The \<open>while\<close> loop of \<open>get_next_available_blob\<close>. It returns the id it found, or no
  id once the index is back at \<open>starting_blob\<close>. The loop has no bound of its own, so
  it is a partial function: \<open>None\<close> stands for a run that reads outside the vector or
  never ends.
\<close>

partial_function (option) get_next_available_blob_loop ::
  "int \<Rightarrow> blob_manager \<Rightarrow> (int option \<times> blob_manager) option" where
  "get_next_available_blob_loop starting_blob m =
     (if m_blob_index m \<noteq> starting_blob then
        (case blob_at (m_blob_locks m) (m_blob_index m) of
           None \<Rightarrow> None
         | Some rec \<Rightarrow>
             if unlocked_and_not_full m rec then Some (Some (m_blob_index m), m)
             else get_next_available_blob_loop starting_blob (increment_blob_index m))
      else Some (None, m))"

declare get_next_available_blob_loop.simps [code]

definition get_next_available_blob :: "blob_manager \<Rightarrow> (int \<times> blob_manager) option" where
  "get_next_available_blob m0 =
     (let m1 = increment_blob_index m0 in
      case blob_at (m_blob_locks m1) (m_blob_index m1) of
        None \<Rightarrow> None
      | Some rec \<Rightarrow>
          if unlocked_and_not_full m1 rec then Some (m_blob_index m1, m1)
          else
            let starting_blob = m_blob_index m1 in
            case get_next_available_blob_loop starting_blob (increment_blob_index m1) of
              None \<Rightarrow> None
            | Some (Some blob_id, m2) \<Rightarrow> Some (blob_id, m2)
            | Some (None, m2) \<Rightarrow>
                if m_max_blobs m2 \<le> length (m_blob_locks m2) then Some (- 1, m2)
                else
                  let m3 = m2\<lparr>m_blob_locks := m_blob_locks m2 @
                                 [\<lparr>locked = False, current_blob_offset = 0\<rparr>]\<rparr>
                  in Some (int (length (m_blob_locks m3)) - 1, m3))"

subsection \<open>The public methods\<close>

text \<open>
  The constructor. The member initialisers run first (the size in megabytes times
  \<open>1024 * 1024\<close>, in 64-bit arithmetic), then \<open>VW_ASSERT\<close> throws \<open>ArgumentErr\<close> unless
  \<open>initial_nblobs >= 1\<close>, then the vector is resized and every record reset. The macro
  \<open>VW_ASSERT\<close> comes from vw/Core/Exception.h, which is not among the sources; it is
  taken to throw its second argument when its first is false, as the spec has
  construction fail for an initial count below 1.
\<close>

definition BlobManager :: "64 word \<Rightarrow> int \<Rightarrow> int \<Rightarrow> exn + blob_manager" where
  "BlobManager max_blob_size initial_nblobs max_blobs =
     (if \<not> 1 \<le> initial_nblobs then Inl ArgumentErr
      else Inr \<lparr>m_max_blob_size = max_blob_size * 1024 * 1024,
                m_max_blobs = size_t_of_int max_blobs,
                m_blob_index = 0,
                m_blob_locks =
                  replicate (nat initial_nblobs) \<lparr>locked = False, current_blob_offset = 0\<rparr>\<rparr>)"

definition num_blobs :: "blob_manager \<Rightarrow> nat" where
  "num_blobs m = length (m_blob_locks m)"

definition max_blob_size :: "blob_manager \<Rightarrow> 64 word" where
  "max_blob_size m = m_max_blob_size m"

text \<open>
  \<open>request_lock\<close> never reads its argument. The result is \<open>None\<close> when the call has
  no defined outcome; otherwise it is the exception or the blob id, and the manager as
  the call leaves it.
\<close>

definition request_lock ::
  "64 word \<Rightarrow> blob_manager \<Rightarrow> ((exn + int) \<times> blob_manager) option" where
  "request_lock sz m0 =
     (case get_next_available_blob m0 of
        None \<Rightarrow> None
      | Some (next_available_blob, m) \<Rightarrow>
          if next_available_blob = - 1 then Some (Inl BlobLimitErr, m)
          else
            (case blob_at (m_blob_locks m) next_available_blob of
               None \<Rightarrow> None
             | Some rec \<Rightarrow>
                 Some (Inr next_available_blob,
                       m\<lparr>m_blob_locks :=
                           (m_blob_locks m)[nat next_available_blob := rec\<lparr>locked := True\<rparr>]\<rparr>)))"

definition release_lock :: "int \<Rightarrow> 64 word \<Rightarrow> blob_manager \<Rightarrow> blob_manager option" where
  "release_lock blob_id blob_offset m =
     (case blob_at (m_blob_locks m) blob_id of
        None \<Rightarrow> None
      | Some rec \<Rightarrow>
          Some (m\<lparr>m_blob_locks :=
                    (m_blob_locks m)[nat blob_id :=
                       rec\<lparr>current_blob_offset := blob_offset, locked := False\<rparr>]\<rparr>))"

subsection \<open>Sequences of calls\<close>

text \<open>
  A client's calls, one after the other, and what each call gave back. A call with no
  defined outcome ends the run with \<open>Undefined\<close>; an exception does not.
\<close>

datatype call = Request_lock "64 word" | Release_lock int "64 word"

datatype event = Returned int | Thrown exn | Released | Undefined

fun run :: "call list \<Rightarrow> blob_manager \<Rightarrow> event list \<times> blob_manager" where
  "run [] m = ([], m)"
| "run (Request_lock sz # calls) m =
     (case request_lock sz m of
        None \<Rightarrow> ([Undefined], m)
      | Some (Inl e, m') \<Rightarrow> (let (es, m'') = run calls m' in (Thrown e # es, m''))
      | Some (Inr blob_id, m') \<Rightarrow> (let (es, m'') = run calls m' in (Returned blob_id # es, m'')))"
| "run (Release_lock blob_id blob_offset # calls) m =
     (case release_lock blob_id blob_offset m of
        None \<Rightarrow> ([Undefined], m)
      | Some m' \<Rightarrow> (let (es, m'') = run calls m' in (Released # es, m'')))"

text \<open>
  Writers that take a blob, write and commit before the next one asks: each pair is
  the size asked for and the offset committed. The result is the ids handed out, or
  \<open>None\<close> as soon as a call throws or has no defined outcome.
\<close>

fun request_release ::
  "(64 word \<times> 64 word) list \<Rightarrow> blob_manager \<Rightarrow> (int list \<times> blob_manager) option" where
  "request_release [] m = Some ([], m)"
| "request_release ((sz, blob_offset) # rest) m =
     (case request_lock sz m of
        Some (Inr blob_id, m1) \<Rightarrow>
          (case release_lock blob_id blob_offset m1 of
             Some m2 \<Rightarrow>
               (case request_release rest m2 of
                  Some (ids, m3) \<Rightarrow> Some (blob_id # ids, m3)
                | None \<Rightarrow> None)
           | None \<Rightarrow> None)
      | _ \<Rightarrow> None)"

text \<open>The invariant of the index: it points into the vector.\<close>

definition index_in_range :: "blob_manager \<Rightarrow> bool" where
  "index_in_range m \<longleftrightarrow> 0 \<le> m_blob_index m \<and> m_blob_index m < int (length (m_blob_locks m))"

subsection \<open>Notions used in the proofs\<close>

text \<open>The record at index k passes the test of the search.\<close>

definition available :: "blob_manager \<Rightarrow> int \<Rightarrow> bool" where
  "available m k \<longleftrightarrow> unlocked_and_not_full m (m_blob_locks m ! nat k)"

text \<open>
  The indexes the loop still has to visit when it stands at i and stops at st: from i
  on, wrapping at n, up to but not including st.
\<close>

definition scanned :: "int \<Rightarrow> int \<Rightarrow> int \<Rightarrow> int \<Rightarrow> bool" where
  "scanned n i st k \<longleftrightarrow>
     (if i \<le> st then i \<le> k \<and> k < st else (i \<le> k \<and> k < n) \<or> (0 \<le> k \<and> k < st))"

text \<open>The index after one \<open>increment_blob_index\<close>.\<close>

definition next_index :: "blob_manager \<Rightarrow> int" where
  "next_index m = m_blob_index (increment_blob_index m)"

text \<open>Every record is locked or full.\<close>

definition none_available :: "blob_manager \<Rightarrow> bool" where
  "none_available m \<longleftrightarrow> (\<forall>rec \<in> set (m_blob_locks m). \<not> unlocked_and_not_full m rec)"

text \<open>The record at index i exists and is locked.\<close>

definition blob_locked :: "blob_manager \<Rightarrow> int \<Rightarrow> bool" where
  "blob_locked m i \<longleftrightarrow> (case blob_at (m_blob_locks m) i of None \<Rightarrow> False | Some rec \<Rightarrow> locked rec)"

text \<open>How many records pass the test of the search.\<close>

definition available_count :: "blob_manager \<Rightarrow> nat" where
  "available_count m = length (filter (unlocked_and_not_full m) (m_blob_locks m))"

text \<open>
  A manager written out for the examples: the maximal size, the maximal number of
  blobs, the index, and one pair of lock flag and offset per record.
\<close>

definition manager :: "64 word \<Rightarrow> nat \<Rightarrow> int \<Rightarrow> (bool \<times> 64 word) list \<Rightarrow> blob_manager" where
  "manager max_size max_blobs blob_index records =
     \<lparr>m_max_blob_size = max_size, m_max_blobs = max_blobs, m_blob_index = blob_index,
      m_blob_locks = map (\<lambda>(l, off). \<lparr>locked = l, current_blob_offset = off\<rparr>) records\<rparr>"

section \<open>The search\<close>

lemma increment_blob_index_eq:
  "increment_blob_index m =
     m\<lparr>m_blob_index :=
         (if int (length (m_blob_locks m)) \<le> m_blob_index m + 1 then 0 else m_blob_index m + 1)\<rparr>"
  by (simp add: increment_blob_index_def Let_def)

lemma unlocked_and_not_full_index [simp]:
  "unlocked_and_not_full (m\<lparr>m_blob_index := j\<rparr>) rec = unlocked_and_not_full m rec"
  by (simp add: unlocked_and_not_full_def)

lemma available_index [simp]: "available (m\<lparr>m_blob_index := j\<rparr>) k = available m k"
  by (simp add: available_def unlocked_and_not_full_def)

lemma loop_step:
  assumes "i \<noteq> st" "0 \<le> i" "i < int (length (m_blob_locks m))"
  shows "get_next_available_blob_loop st (m\<lparr>m_blob_index := i\<rparr>) =
           (if available m i then Some (Some i, m\<lparr>m_blob_index := i\<rparr>)
            else get_next_available_blob_loop st
                   (m\<lparr>m_blob_index := (if int (length (m_blob_locks m)) \<le> i + 1 then 0 else i + 1)\<rparr>))"
  using assms
  by (subst get_next_available_blob_loop.simps)
     (simp add: increment_blob_index_eq blob_at_def available_def unlocked_and_not_full_def)

lemma loop_stop:
  "get_next_available_blob_loop st (m\<lparr>m_blob_index := st\<rparr>) = Some (None, m\<lparr>m_blob_index := st\<rparr>)"
  by (subst get_next_available_blob_loop.simps) simp

lemma loop_result:
  assumes "n = int (length (m_blob_locks m))" "0 \<le> st" "st < n" "0 \<le> i" "i < n"
  shows "\<exists>r j. get_next_available_blob_loop st (m\<lparr>m_blob_index := i\<rparr>) =
                  Some (r, m\<lparr>m_blob_index := j\<rparr>) \<and>
           0 \<le> j \<and> j < n \<and>
           (r = None \<longrightarrow> j = st \<and> (\<forall>k. scanned n i st k \<longrightarrow> \<not> available m k)) \<and>
           (\<forall>b. r = Some b \<longrightarrow> b = j \<and> available m j)"
  using assms
proof (induction "nat (if i \<le> st then st - i else st - i + n)" arbitrary: i rule: less_induct)
  case less
  show ?case
  proof (cases "i = st")
    case True
    have "\<not> scanned n i st k" for k
      using True by (simp add: scanned_def)
    then show ?thesis
      using True less.prems loop_stop [of st m]
      by (intro exI [of _ None] exI [of _ st]) simp
  next
    case False
    show ?thesis
    proof (cases "available m i")
      case True
      have "get_next_available_blob_loop st (m\<lparr>m_blob_index := i\<rparr>) =
              Some (Some i, m\<lparr>m_blob_index := i\<rparr>)"
        using loop_step [of i st m] True False less.prems by simp
      then show ?thesis
        using True less.prems
        by (intro exI [of _ "Some i"] exI [of _ i]) simp
    next
      case busy: False
      define i' where "i' = (if n \<le> i + 1 then 0 else i + 1)"
      have step: "get_next_available_blob_loop st (m\<lparr>m_blob_index := i\<rparr>) =
                  get_next_available_blob_loop st (m\<lparr>m_blob_index := i'\<rparr>)"
        using loop_step [of i st m] False busy less.prems by (simp add: i'_def)
      have i': "0 \<le> i'" "i' < n"
        using less.prems by (auto simp: i'_def)
      have dec: "nat (if i' \<le> st then st - i' else st - i' + n)
               < nat (if i \<le> st then st - i else st - i + n)"
        using False less.prems by (auto simp: i'_def)
      have sc: "scanned n i' st k \<or> k = i" if "scanned n i st k" for k
        using that False less.prems by (auto simp: i'_def scanned_def split: if_splits)
      from less.hyps [OF dec less.prems(1,2,3) i']
      obtain r j where
        res: "get_next_available_blob_loop st (m\<lparr>m_blob_index := i'\<rparr>) =
                Some (r, m\<lparr>m_blob_index := j\<rparr>)"
        and j: "0 \<le> j" "j < n"
        and none: "r = None \<longrightarrow> j = st \<and> (\<forall>k. scanned n i' st k \<longrightarrow> \<not> available m k)"
        and some: "\<forall>b. r = Some b \<longrightarrow> b = j \<and> available m j"
        by blast
      have none': "r = None \<longrightarrow> j = st \<and> (\<forall>k. scanned n i st k \<longrightarrow> \<not> available m k)"
        using none sc busy by blast
      show ?thesis
        by (rule exI [of _ r], rule exI [of _ j]) (simp add: step res j none' some)
    qed
  qed
qed

lemma next_index_eq:
  "next_index m =
     (if int (length (m_blob_locks m)) \<le> m_blob_index m + 1 then 0 else m_blob_index m + 1)"
  by (simp add: next_index_def increment_blob_index_eq)

lemma increment_blob_index_next: "increment_blob_index m = m\<lparr>m_blob_index := next_index m\<rparr>"
  by (simp add: next_index_eq increment_blob_index_eq)

lemma next_index_range:
  "index_in_range m \<Longrightarrow> 0 \<le> next_index m \<and> next_index m < int (length (m_blob_locks m))"
  by (auto simp: index_in_range_def next_index_eq)

lemma none_available_iff:
  "none_available m \<longleftrightarrow> (\<forall>k. 0 \<le> k \<and> k < int (length (m_blob_locks m)) \<longrightarrow> \<not> available m k)"
proof
  assume na: "none_available m"
  show "\<forall>k. 0 \<le> k \<and> k < int (length (m_blob_locks m)) \<longrightarrow> \<not> available m k"
  proof (intro allI impI)
    fix k assume "0 \<le> k \<and> k < int (length (m_blob_locks m))"
    then have "nat k < length (m_blob_locks m)" by linarith
    then have "m_blob_locks m ! nat k \<in> set (m_blob_locks m)" by (rule nth_mem)
    then show "\<not> available m k" using na by (simp add: none_available_def available_def)
  qed
next
  assume all: "\<forall>k. 0 \<le> k \<and> k < int (length (m_blob_locks m)) \<longrightarrow> \<not> available m k"
  show "none_available m"
    unfolding none_available_def
  proof
    fix rec assume "rec \<in> set (m_blob_locks m)"
    then obtain q where q: "q < length (m_blob_locks m)" "m_blob_locks m ! q = rec"
      by (auto simp: in_set_conv_nth)
    then have "\<not> available m (int q)" using all by simp
    then show "\<not> unlocked_and_not_full m rec" using q by (simp add: available_def)
  qed
qed

lemma get_next_first:
  assumes "index_in_range m" "available m (next_index m)"
  shows "get_next_available_blob m = Some (next_index m, m\<lparr>m_blob_index := next_index m\<rparr>)"
  using assms next_index_range [OF assms(1)]
  by (simp add: get_next_available_blob_def increment_blob_index_next blob_at_def available_def)

lemma scanned_all:
  assumes "0 \<le> st" "st < n" "0 \<le> k" "k < n" "k \<noteq> st"
  shows "scanned n (if n \<le> st + 1 then 0 else st + 1) st k"
  using assms by (auto simp: scanned_def)

lemma get_next_busy:
  assumes inv: "index_in_range m" and busy: "\<not> available m (next_index m)"
  shows "(\<exists>j. 0 \<le> j \<and> j < int (length (m_blob_locks m)) \<and> available m j \<and>
            get_next_available_blob m = Some (j, m\<lparr>m_blob_index := j\<rparr>)) \<or>
         (none_available m \<and>
            get_next_available_blob m =
              (if m_max_blobs m \<le> length (m_blob_locks m)
               then Some (- 1, m\<lparr>m_blob_index := next_index m\<rparr>)
               else Some (int (length (m_blob_locks m)),
                          m\<lparr>m_blob_index := next_index m,
                            m_blob_locks := m_blob_locks m @
                              [\<lparr>locked = False, current_blob_offset = 0\<rparr>]\<rparr>)))"
proof -
  define n where "n = int (length (m_blob_locks m))"
  define st where "st = next_index m"
  define i where "i = (if n \<le> st + 1 then 0 else st + 1)"
  have st: "0 \<le> st" "st < n"
    using next_index_range [OF inv] by (simp_all add: st_def n_def)
  have i: "0 \<le> i" "i < n"
    using st by (auto simp: i_def)
  have m1: "increment_blob_index m = m\<lparr>m_blob_index := st\<rparr>"
    by (simp add: increment_blob_index_next st_def)
  have m2: "increment_blob_index (m\<lparr>m_blob_index := st\<rparr>) = m\<lparr>m_blob_index := i\<rparr>"
    by (simp add: increment_blob_index_eq i_def n_def)
  have at: "blob_at (m_blob_locks m) st = Some (m_blob_locks m ! nat st)"
    using st by (simp add: blob_at_def n_def)
  have busy': "\<not> unlocked_and_not_full m (m_blob_locks m ! nat st)"
    using busy by (simp add: available_def st_def)
  have unfold: "get_next_available_blob m =
      (case get_next_available_blob_loop st (m\<lparr>m_blob_index := i\<rparr>) of
         None \<Rightarrow> None
       | Some (Some blob_id, m2) \<Rightarrow> Some (blob_id, m2)
       | Some (None, m2) \<Rightarrow>
           if m_max_blobs m2 \<le> length (m_blob_locks m2) then Some (- 1, m2)
           else
             let m3 = m2\<lparr>m_blob_locks := m_blob_locks m2 @
                            [\<lparr>locked = False, current_blob_offset = 0\<rparr>]\<rparr>
             in Some (int (length (m_blob_locks m3)) - 1, m3))"
    unfolding get_next_available_blob_def m1 Let_def
    by (simp add: at busy' m2)
  from loop_result [OF n_def st i]
  obtain r j where
    res: "get_next_available_blob_loop st (m\<lparr>m_blob_index := i\<rparr>) =
            Some (r, m\<lparr>m_blob_index := j\<rparr>)"
    and j: "0 \<le> j" "j < n"
    and none: "r = None \<longrightarrow> j = st \<and> (\<forall>k. scanned n i st k \<longrightarrow> \<not> available m k)"
    and some: "\<forall>b. r = Some b \<longrightarrow> b = j \<and> available m j"
    by blast
  show ?thesis
  proof (cases r)
    case None
    have "\<not> available m k" if "0 \<le> k \<and> k < n" for k
    proof (cases "k = st")
      case True
      then show ?thesis using busy by (simp add: st_def)
    next
      case False
      then have "scanned n i st k"
        using that st unfolding i_def by (intro scanned_all) simp_all
      then show ?thesis using none None by blast
    qed
    then have "none_available m"
      by (simp add: none_available_iff n_def)
    moreover have "j = st" using none None by blast
    ultimately show ?thesis
      using unfold res None by (simp add: st_def)
  next
    case (Some b)
    then have "b = j" "available m j" using some by blast+
    then show ?thesis
      using unfold res Some j by (simp add: n_def)
  qed
qed

lemma request_lock_first:
  assumes "index_in_range m" "available m (next_index m)"
  shows "request_lock sz m =
           Some (Inr (next_index m),
                 m\<lparr>m_blob_index := next_index m,
                   m_blob_locks := (m_blob_locks m)[nat (next_index m) :=
                     (m_blob_locks m ! nat (next_index m))\<lparr>locked := True\<rparr>]\<rparr>)"
  using next_index_range [OF assms(1)]
  by (simp add: request_lock_def get_next_first [OF assms] blob_at_def)

lemma request_lock_outcome:
  assumes inv: "index_in_range m"
  shows "(\<exists>j. 0 \<le> j \<and> j < int (length (m_blob_locks m)) \<and> available m j \<and>
            request_lock sz m =
              Some (Inr j, m\<lparr>m_blob_index := j,
                             m_blob_locks := (m_blob_locks m)[nat j :=
                               (m_blob_locks m ! nat j)\<lparr>locked := True\<rparr>]\<rparr>)) \<or>
         (none_available m \<and>
            request_lock sz m =
              (if m_max_blobs m \<le> length (m_blob_locks m)
               then Some (Inl BlobLimitErr, m\<lparr>m_blob_index := next_index m\<rparr>)
               else Some (Inr (int (length (m_blob_locks m))),
                          m\<lparr>m_blob_index := next_index m,
                            m_blob_locks := m_blob_locks m @
                              [\<lparr>locked = True, current_blob_offset = 0\<rparr>]\<rparr>)))"
proof (cases "available m (next_index m)")
  case True
  then show ?thesis
    using request_lock_first [OF inv True] next_index_range [OF inv] by blast
next
  case False
  from get_next_busy [OF inv False] show ?thesis
  proof (elim disjE exE conjE)
    fix j
    assume j: "0 \<le> j" "j < int (length (m_blob_locks m))" "available m j"
      and g: "get_next_available_blob m = Some (j, m\<lparr>m_blob_index := j\<rparr>)"
    have "request_lock sz m =
            Some (Inr j, m\<lparr>m_blob_index := j,
                           m_blob_locks := (m_blob_locks m)[nat j :=
                             (m_blob_locks m ! nat j)\<lparr>locked := True\<rparr>]\<rparr>)"
      using j by (simp add: request_lock_def g blob_at_def)
    then show ?thesis using j by blast
  next
    assume na: "none_available m"
      and g: "get_next_available_blob m =
              (if m_max_blobs m \<le> length (m_blob_locks m)
               then Some (- 1, m\<lparr>m_blob_index := next_index m\<rparr>)
               else Some (int (length (m_blob_locks m)),
                          m\<lparr>m_blob_index := next_index m,
                            m_blob_locks := m_blob_locks m @
                              [\<lparr>locked = False, current_blob_offset = 0\<rparr>]\<rparr>))"
    have "request_lock sz m =
              (if m_max_blobs m \<le> length (m_blob_locks m)
               then Some (Inl BlobLimitErr, m\<lparr>m_blob_index := next_index m\<rparr>)
               else Some (Inr (int (length (m_blob_locks m))),
                          m\<lparr>m_blob_index := next_index m,
                            m_blob_locks := m_blob_locks m @
                              [\<lparr>locked = True, current_blob_offset = 0\<rparr>]\<rparr>))"
      by (simp add: request_lock_def g blob_at_def)
    then show ?thesis using na by blast
  qed
qed

lemma loop_partial:
  assumes "get_next_available_blob_loop st m = Some y"
  shows "(\<exists>j. snd y = m\<lparr>m_blob_index := j\<rparr>) \<and>
         (\<forall>b. fst y = Some b \<longrightarrow>
            0 \<le> b \<and> b < int (length (m_blob_locks m)) \<and> available m b \<and>
            snd y = m\<lparr>m_blob_index := b\<rparr>)"
proof (rule get_next_available_blob_loop.raw_induct [OF _ assms], goal_cases)
  case (1 loop st m y)
  show ?case
  proof (cases "m_blob_index m = st")
    case True
    then have "y = (None, m)" using 1(2) by simp
    moreover have "m = m\<lparr>m_blob_index := m_blob_index m\<rparr>" by simp
    ultimately show ?thesis by (metis fst_conv snd_conv option.distinct(1))
  next
    case False
    then obtain rec where at: "blob_at (m_blob_locks m) (m_blob_index m) = Some rec"
      using 1(2) by (cases "blob_at (m_blob_locks m) (m_blob_index m)") simp_all
    then have range: "0 \<le> m_blob_index m" "m_blob_index m < int (length (m_blob_locks m))"
      and rec: "rec = m_blob_locks m ! nat (m_blob_index m)"
      by (auto simp: blob_at_def split: if_splits)
    show ?thesis
    proof (cases "unlocked_and_not_full m rec")
      case True
      then have y: "y = (Some (m_blob_index m), m)" using 1(2) False at by simp
      have "m = m\<lparr>m_blob_index := m_blob_index m\<rparr>" by simp
      then show ?thesis
        using y True range rec unfolding available_def
        by (metis fst_conv snd_conv option.inject)
    next
      case busy: False
      then have "loop st (increment_blob_index m) = Some y"
        using 1(2) False at by simp
      from 1(1) [OF this] show ?thesis
        by (simp add: increment_blob_index_eq)
    qed
  qed
qed

lemma get_next_partial:
  assumes "get_next_available_blob m = Some (r, m')"
  shows "(r = - 1 \<and> (\<exists>j. m' = m\<lparr>m_blob_index := j\<rparr>)) \<or>
         (0 \<le> r \<and> r < int (length (m_blob_locks m)) \<and> available m r \<and>
            m' = m\<lparr>m_blob_index := r\<rparr>) \<or>
         (r = int (length (m_blob_locks m)) \<and> length (m_blob_locks m) < m_max_blobs m \<and>
            (\<exists>j. m' = m\<lparr>m_blob_index := j,
                         m_blob_locks := m_blob_locks m @
                           [\<lparr>locked = False, current_blob_offset = 0\<rparr>]\<rparr>))"
proof -
  define i1 where "i1 = next_index m"
  define m1 where "m1 = m\<lparr>m_blob_index := i1\<rparr>"
  have inc: "increment_blob_index m = m1"
    by (simp add: increment_blob_index_next m1_def i1_def)
  have m1: "m_blob_locks m1 = m_blob_locks m" "m_blob_index m1 = i1"
    by (simp_all add: m1_def)
  from assms obtain rec where at: "blob_at (m_blob_locks m) i1 = Some rec"
    unfolding get_next_available_blob_def inc Let_def m1
    by (cases "blob_at (m_blob_locks m) i1") simp_all
  then have range: "0 \<le> i1" "i1 < int (length (m_blob_locks m))"
    and rec: "rec = m_blob_locks m ! nat i1"
    by (auto simp: blob_at_def split: if_splits)
  show ?thesis
  proof (cases "unlocked_and_not_full m rec")
    case True
    then have "r = i1" "m' = m1"
      using assms unfolding get_next_available_blob_def inc Let_def m1 at
      by (auto simp: m1_def)
    then show ?thesis
      using True range rec by (simp add: available_def m1_def)
  next
    case False
    define m2 where "m2 = increment_blob_index m1"
    have m2: "m2 = m\<lparr>m_blob_index := m_blob_index m2\<rparr>"
      by (simp add: m2_def m1_def increment_blob_index_eq)
    from False assms obtain y where loop: "get_next_available_blob_loop i1 m2 = Some y"
      unfolding get_next_available_blob_def inc Let_def m1 at m2_def [symmetric]
      by (cases "get_next_available_blob_loop i1 m2") (simp_all add: m1_def)
    from loop_partial [OF loop] obtain j where
      sy: "snd y = m2\<lparr>m_blob_index := j\<rparr>"
      and found: "\<forall>b. fst y = Some b \<longrightarrow>
            0 \<le> b \<and> b < int (length (m_blob_locks m2)) \<and> available m2 b \<and>
            snd y = m2\<lparr>m_blob_index := b\<rparr>"
      by blast
    have sy': "snd y = m\<lparr>m_blob_index := j\<rparr>"
      using sy by (subst (asm) m2) simp
    have res:
        "(case y of
           (Some blob_id, m2) \<Rightarrow> Some (blob_id, m2)
         | (None, m2) \<Rightarrow>
             if m_max_blobs m2 \<le> length (m_blob_locks m2) then Some (- 1, m2)
             else
               Some (int (length (m_blob_locks
                       (m2\<lparr>m_blob_locks := m_blob_locks m2 @
                           [\<lparr>locked = False, current_blob_offset = 0\<rparr>]\<rparr>))) - 1,
                     m2\<lparr>m_blob_locks := m_blob_locks m2 @
                           [\<lparr>locked = False, current_blob_offset = 0\<rparr>]\<rparr>)) = Some (r, m')"
      using assms False
      unfolding get_next_available_blob_def inc Let_def m1 at m2_def [symmetric]
      by (simp add: loop m1_def)
    show ?thesis
    proof (cases "fst y")
      case None
      then have y: "y = (None, m\<lparr>m_blob_index := j\<rparr>)"
        using sy' by (cases y) simp
      show ?thesis
        using res unfolding y by (auto split: if_splits)
    next
      case (Some b)
      with found have b: "0 \<le> b" "b < int (length (m_blob_locks m2))" "available m2 b"
        "snd y = m2\<lparr>m_blob_index := b\<rparr>"
        by blast+
      have y: "y = (Some b, m\<lparr>m_blob_index := b\<rparr>)"
        using Some b(4) by (cases y) (subst (asm) m2, simp)
      have "available m b"
        using b(3) by (subst (asm) m2) simp
      moreover have "b < int (length (m_blob_locks m))"
        using b(2) by (subst (asm) m2) simp
      ultimately show ?thesis
        using res b(1) unfolding y by auto
    qed
  qed
qed

lemma request_lock_partial:
  assumes "request_lock sz m = Some (res, m')"
  shows "(res = Inl BlobLimitErr \<and> (\<exists>j. m' = m\<lparr>m_blob_index := j\<rparr>)) \<or>
         (\<exists>b. res = Inr b \<and> 0 \<le> b \<and> b < int (length (m_blob_locks m)) \<and> available m b \<and>
              m' = m\<lparr>m_blob_index := b,
                     m_blob_locks := (m_blob_locks m)[nat b :=
                       (m_blob_locks m ! nat b)\<lparr>locked := True\<rparr>]\<rparr>) \<or>
         (res = Inr (int (length (m_blob_locks m))) \<and>
            length (m_blob_locks m) < m_max_blobs m \<and>
            (\<exists>j. m' = m\<lparr>m_blob_index := j,
                         m_blob_locks := m_blob_locks m @
                           [\<lparr>locked = True, current_blob_offset = 0\<rparr>]\<rparr>))"
proof -
  from assms obtain r m1 where g: "get_next_available_blob m = Some (r, m1)"
    unfolding request_lock_def
    by (cases "get_next_available_blob m") auto
  have rl: "Some (res, m') =
      (if r = - 1 then Some (Inl BlobLimitErr, m1)
       else
         (case blob_at (m_blob_locks m1) r of
            None \<Rightarrow> None
          | Some rec \<Rightarrow>
              Some (Inr r, m1\<lparr>m_blob_locks := (m_blob_locks m1)[nat r := rec\<lparr>locked := True\<rparr>]\<rparr>)))"
    using assms unfolding request_lock_def g by simp
  from get_next_partial [OF g] show ?thesis
  proof (elim disjE conjE exE)
    fix j assume "r = - 1" "m1 = m\<lparr>m_blob_index := j\<rparr>"
    then show ?thesis using rl by auto
  next
    assume "0 \<le> r" "r < int (length (m_blob_locks m))" "available m r"
      "m1 = m\<lparr>m_blob_index := r\<rparr>"
    then show ?thesis using rl by (simp add: blob_at_def)
  next
    fix j assume "r = int (length (m_blob_locks m))" "length (m_blob_locks m) < m_max_blobs m"
      "m1 = m\<lparr>m_blob_index := j,
               m_blob_locks := m_blob_locks m @ [\<lparr>locked = False, current_blob_offset = 0\<rparr>]\<rparr>"
    then show ?thesis using rl by (auto simp: blob_at_def)
  qed
qed

lemma none_available_alt:
  "none_available m \<longleftrightarrow>
     (\<forall>rec \<in> set (m_blob_locks m). locked rec \<or> m_max_blob_size m \<le> current_blob_offset rec)"
  by (auto simp: none_available_def unlocked_and_not_full_def not_less)

lemma none_available_not_available:
  "none_available m \<Longrightarrow> 0 \<le> j \<Longrightarrow> j < int (length (m_blob_locks m)) \<Longrightarrow> \<not> available m j"
  by (simp add: none_available_iff)

lemma none_available_count: "none_available m \<longleftrightarrow> available_count m = 0"
  by (auto simp: none_available_def available_count_def filter_empty_conv)

lemma BlobRecord_overwrite:
  "(r :: BlobRecord)\<lparr>current_blob_offset := x, locked := b\<rparr> =
     \<lparr>locked = b, current_blob_offset = x\<rparr>"
  by (cases r) simp

section \<open>What a call of \<open>request_lock\<close> does\<close>

text \<open>
  Two descriptions of a call. The first needs nothing of the manager: whenever the call
  has an outcome, it is one of three. The second holds when the index points into the
  vector, as it does in every manager the class reaches: then the call has an outcome,
  and the records decide which.
\<close>

lemma request_lock_limit:
  assumes "index_in_range m" "none_available m" "m_max_blobs m \<le> length (m_blob_locks m)"
  shows "request_lock sz m = Some (Inl BlobLimitErr, m\<lparr>m_blob_index := next_index m\<rparr>)"
  using request_lock_outcome [OF assms(1), of sz] assms(2,3)
  by (auto dest: none_available_not_available)

lemma request_lock_grow:
  assumes "index_in_range m" "none_available m" "length (m_blob_locks m) < m_max_blobs m"
  shows "request_lock sz m =
           Some (Inr (int (length (m_blob_locks m))),
                 m\<lparr>m_blob_index := next_index m,
                   m_blob_locks := m_blob_locks m @
                     [\<lparr>locked = True, current_blob_offset = 0\<rparr>]\<rparr>)"
  using request_lock_outcome [OF assms(1), of sz] assms(2,3)
  by (auto dest: none_available_not_available)

lemma request_lock_keeps_index_in_range:
  assumes "index_in_range m"
  shows "\<exists>r m'. request_lock sz m = Some (r, m') \<and> index_in_range m'"
  using request_lock_outcome [OF assms, of sz] next_index_range [OF assms]
  by (auto simp: index_in_range_def split: if_splits)

lemma release_lock_keeps_index_in_range:
  assumes "index_in_range m" "release_lock blob_id blob_offset m = Some m'"
  shows "index_in_range m'"
  using assms by (auto simp: release_lock_def index_in_range_def split: option.splits)

lemma run_keeps_index_in_range:
  assumes "index_in_range m" "run calls m = (es, m')"
  shows "index_in_range m'"
  using assms
proof (induction calls arbitrary: m es m')
  case Nil
  then show ?case by simp
next
  case (Cons c calls)
  show ?case
  proof (cases c)
    case (Request_lock sz)
    from request_lock_keeps_index_in_range [OF Cons.prems(1), of sz] obtain r m1 where
      r: "request_lock sz m = Some (r, m1)" and inv1: "index_in_range m1"
      by blast
    obtain es1 m2 where run1: "run calls m1 = (es1, m2)" by (cases "run calls m1")
    have "m' = m2"
      using Cons.prems(2) Request_lock r run1 by (cases r) auto
    then show ?thesis using Cons.IH [OF inv1 run1] by simp
  next
    case (Release_lock j blob_offset)
    show ?thesis
    proof (cases "release_lock j blob_offset m")
      case None
      then show ?thesis using Cons.prems Release_lock by auto
    next
      case (Some m1)
      obtain es1 m2 where run1: "run calls m1 = (es1, m2)" by (cases "run calls m1")
      have inv1: "index_in_range m1"
        using release_lock_keeps_index_in_range [OF Cons.prems(1) Some] .
      have "m' = m2"
        using Cons.prems(2) Release_lock Some run1 by auto
      then show ?thesis using Cons.IH [OF inv1 run1] by simp
    qed
  qed
qed

section \<open>Examples\<close>

text \<open>Calls on managers that are written out, each derived from the lemmas above.\<close>

lemmas state_defs =
  manager_def index_in_range_def next_index_eq available_def unlocked_and_not_full_def
  none_available_def

lemma BlobManager_1_2_1: "BlobManager 1 2 1 = Inr (manager 1048576 1 0 [(False, 0), (False, 0)])"
  by (simp add: BlobManager_def size_t_of_int_def manager_def numeral_2_eq_2)

lemma BlobManager_1_1_2: "BlobManager 1 1 2 = Inr (manager 1048576 2 0 [(False, 0)])"
  by (simp add: BlobManager_def size_t_of_int_def manager_def)



lemma request_lock_example_limit:
  "request_lock 7 (manager 1048576 2 0 [(False, 1048576), (True, 0)]) =
     Some (Inl BlobLimitErr, manager 1048576 2 1 [(False, 1048576), (True, 0)])"
  using request_lock_limit [of "manager 1048576 2 0 [(False, 1048576), (True, 0)]" 7]
  by (simp add: state_defs)

lemma request_lock_example_1:
  "request_lock 0 (manager 1048576 3 0 [(False, 0), (False, 0), (False, 0)]) =
     Some (Inr 1, manager 1048576 3 1 [(False, 0), (True, 0), (False, 0)])"
  using request_lock_first [of "manager 1048576 3 0 [(False, 0), (False, 0), (False, 0)]" 0]
  by (simp add: state_defs)

lemma request_lock_example_2:
  "request_lock 0 (manager 1048576 3 1 [(False, 0), (True, 0), (False, 0)]) =
     Some (Inr 2, manager 1048576 3 2 [(False, 0), (True, 0), (True, 0)])"
  using request_lock_first [of "manager 1048576 3 1 [(False, 0), (True, 0), (False, 0)]" 0]
  by (simp add: state_defs)

lemma request_lock_example_3:
  "request_lock 0 (manager 1048576 3 2 [(False, 0), (True, 0), (False, 7)]) =
     Some (Inr 0, manager 1048576 3 0 [(True, 0), (True, 0), (False, 7)])"
  using request_lock_first [of "manager 1048576 3 2 [(False, 0), (True, 0), (False, 7)]" 0]
  by (simp add: state_defs)

lemma release_lock_example:
  "release_lock 2 7 (manager 1048576 3 2 [(False, 0), (True, 0), (True, 0)]) =
     Some (manager 1048576 3 2 [(False, 0), (True, 0), (False, 7)])"
  by (simp add: release_lock_def blob_at_def manager_def)

lemma run_example:
  "run [Request_lock 0, Release_lock 2 7, Request_lock 0]
     (manager 1048576 3 1 [(False, 0), (True, 0), (False, 0)]) =
     ([Returned 2, Released, Returned 0],
      manager 1048576 3 0 [(True, 0), (True, 0), (False, 7)])"
  by (simp add: request_lock_example_2 request_lock_example_3 release_lock_example)

lemma request_lock_example_4:
  "request_lock 0 (manager 1048576 2 0 [(False, 0)]) =
     Some (Inr 0, manager 1048576 2 0 [(True, 0)])"
  using request_lock_first [of "manager 1048576 2 0 [(False, 0)]" 0]
  by (simp add: state_defs)

lemma request_lock_example_5:
  "request_lock 0 (manager 1048576 2 0 [(True, 0)]) =
     Some (Inr 1, manager 1048576 2 0 [(True, 0), (True, 0)])"
  using request_lock_grow [of "manager 1048576 2 0 [(True, 0)]" 0]
  by (simp add: state_defs)

lemma request_lock_example_6:
  "request_lock 0 (manager 1048576 2 0 [(True, 0), (True, 0)]) =
     Some (Inl BlobLimitErr, manager 1048576 2 1 [(True, 0), (True, 0)])"
  using request_lock_limit [of "manager 1048576 2 0 [(True, 0), (True, 0)]" 0]
  by (simp add: state_defs)

lemma run_example_grow:
  "run [Request_lock 0, Request_lock 0, Request_lock 0] (manager 1048576 2 0 [(False, 0)]) =
     ([Returned 0, Returned 1, Thrown BlobLimitErr],
      manager 1048576 2 1 [(True, 0), (True, 0)])"
  by (simp add: request_lock_example_4 request_lock_example_5 request_lock_example_6)

lemma request_lock_example_7:
  "request_lock 0 (manager 1048576 2 0 [(False, 0), (False, 0)]) =
     Some (Inr 1, manager 1048576 2 1 [(False, 0), (True, 0)])"
  using request_lock_first [of "manager 1048576 2 0 [(False, 0), (False, 0)]" 0]
  by (simp add: state_defs)

lemma request_lock_example_8:
  "request_lock 0 (manager 1048576 2 1 [(False, 0), (True, 0)]) =
     Some (Inr 0, manager 1048576 2 0 [(True, 0), (True, 0)])"
  using request_lock_first [of "manager 1048576 2 1 [(False, 0), (True, 0)]" 0]
  by (simp add: state_defs)

lemma run_example_fill:
  "run (map Request_lock [0, 0]) (manager 1048576 2 0 [(False, 0), (False, 0)]) =
     ([Returned 1, Returned 0], manager 1048576 2 0 [(True, 0), (True, 0)])"
  by (simp add: request_lock_example_7 request_lock_example_8)

lemma BlobManager_1_2_2: "BlobManager 1 2 2 = Inr (manager 1048576 2 0 [(False, 0), (False, 0)])"
  by (simp add: BlobManager_def size_t_of_int_def manager_def numeral_2_eq_2)

lemma run_nothing: "run [] m = ([], m)"
  by simp

lemma BlobManager_negative_max_blobs:
  "BlobManager 1 1 (- 1) = Inr (manager 1048576 18446744073709551615 0 [(False, 0)])"
  by (simp add: BlobManager_def size_t_of_int_def manager_def)

lemma request_lock_negative_max_blobs_1:
  "request_lock 0 (manager 1048576 18446744073709551615 0 [(False, 0)]) =
     Some (Inr 0, manager 1048576 18446744073709551615 0 [(True, 0)])"
  using request_lock_first [of "manager 1048576 18446744073709551615 0 [(False, 0)]" 0]
  by (simp add: state_defs)

lemma request_lock_negative_max_blobs_2:
  "request_lock 0 (manager 1048576 18446744073709551615 0 [(True, 0)]) =
     Some (Inr 1, manager 1048576 18446744073709551615 0 [(True, 0), (True, 0)])"
  using request_lock_grow [of "manager 1048576 18446744073709551615 0 [(True, 0)]" 0]
  by (simp add: state_defs)

lemma BlobManager_negative_size:
  "BlobManager (- 1) 1 1 = Inr (manager (- 1048576) 1 0 [(False, 0)])"
  by (simp add: BlobManager_def size_t_of_int_def manager_def)

lemma request_lock_negative_size:
  "request_lock 0 (manager (- 1048576) 1 0 [(False, 0)]) =
     Some (Inr 0, manager (- 1048576) 1 0 [(True, 0)])"
  using request_lock_first [of "manager (- 1048576) 1 0 [(False, 0)]" 0]
  by (simp add: state_defs word_gt_0)

section \<open>The constructor\<close>

lemma sint_mul_megabyte:
  fixes w :: "64 word"
  assumes "- (2 ^ 43) \<le> sint w" "sint w < 2 ^ 43"
  shows "sint (w * 1024 * 1024) = sint w * 1048576"
proof -
  have eq: "w * 1024 * 1024 = w * 1048576" by simp
  have "sint (w * 1048576) = signed_take_bit 63 (sint w * sint (1048576 :: 64 word))"
    by (simp add: sint_word_ariths)
  also have "sint (1048576 :: 64 word) = 1048576" by simp
  also have "signed_take_bit 63 (sint w * 1048576) = sint w * 1048576"
    using assms by (intro signed_take_bit_int_eq_self) simp_all
  finally show ?thesis unfolding eq .
qed

text \<open>
  Claim C7, as amended. The constructor throws \<open>ArgumentErr\<close> exactly when
  \<open>initial_nblobs < 1\<close>, and throws nothing else. When it returns, the manager holds
  as its size in bytes the size in megabytes times 1,048,576 in 64-bit arithmetic:
  the product modulo \<open>2^64\<close>, which is the product of the integers whenever the size in
  megabytes lies between \<open>-2^43\<close> and \<open>2^43 - 1\<close>. \<open>max_blob_size()\<close> returns
  that value unchanged, there are exactly \<open>initial_nblobs\<close> records, every record is
  unlocked with offset 0, and the index is 0.
\<close>

theorem BlobManager_constructs:
  "(BlobManager mb initial_nblobs max_blobs = Inl ArgumentErr \<longleftrightarrow> initial_nblobs < 1) \<and>
   (\<forall>e. BlobManager mb initial_nblobs max_blobs = Inl e \<longrightarrow> e = ArgumentErr) \<and>
   (\<forall>m. BlobManager mb initial_nblobs max_blobs = Inr m \<longrightarrow>
      m_max_blob_size m = mb * 1048576 \<and>
      max_blob_size m = mb * 1048576 \<and>
      uint (max_blob_size m) = uint mb * 1048576 mod 2 ^ 64 \<and>
      (- (2 ^ 43) \<le> sint mb \<and> sint mb < 2 ^ 43 \<longrightarrow> sint (max_blob_size m) = sint mb * 1048576) \<and>
      int (length (m_blob_locks m)) = initial_nblobs \<and>
      int (num_blobs m) = initial_nblobs \<and>
      (\<forall>rec \<in> set (m_blob_locks m). \<not> locked rec \<and> current_blob_offset rec = 0) \<and>
      m_blob_index m = 0)"
proof -
  have "uint (1048576 * mb) = uint mb * 1048576 mod 2 ^ 64"
    by (simp add: uint_word_ariths mult.commute)
  then show ?thesis
    using sint_mul_megabyte [of mb]
    by (auto simp: BlobManager_def max_blob_size_def num_blobs_def)
qed

theorem BlobManager_constructs_witness:
  "BlobManager 2048 0 16 = Inl ArgumentErr \<and>
   BlobManager 2048 2 16 =
     Inr \<lparr>m_max_blob_size = 2147483648, m_max_blobs = 16, m_blob_index = 0,
          m_blob_locks = [\<lparr>locked = False, current_blob_offset = 0\<rparr>,
                          \<lparr>locked = False, current_blob_offset = 0\<rparr>]\<rparr> \<and>
   sint (2147483648 :: 64 word) = 2048 * 1048576"
  using BlobManager_constructs [of 2048 0 16] BlobManager_constructs [of 2048 2 16]
  by (simp add: BlobManager_def size_t_of_int_def numeral_2_eq_2)

text \<open>
  Claim C7 as the spec states it has the product of the integers stored for every size.
  The code multiplies in 64 bits: for \<open>2^44\<close> megabytes the product \<open>2^64\<close> does
  not fit, and the manager holds a maximal size of 0 bytes.
\<close>

theorem megabytes_wrap_around:
  "BlobManager 17592186044416 1 1 = Inr (manager 0 1 0 [(False, 0)]) \<and>
   max_blob_size (manager 0 1 0 [(False, 0)]) = 0 \<and>
   sint (17592186044416 :: 64 word) * 1048576 = 18446744073709551616 \<and>
   sint (max_blob_size (manager 0 1 0 [(False, 0)])) \<noteq> sint (17592186044416 :: 64 word) * 1048576"
  by (simp add: BlobManager_def size_t_of_int_def manager_def max_blob_size_def)

section \<open>Releasing a blob\<close>

text \<open>
  Claim C9. For a blob id inside the vector, \<open>release_lock\<close> stores the new offset
  in that record and clears its lock flag; every other record, the number of records,
  the index, the maximal blob size and the maximal number of blobs stay as they were.
\<close>

theorem release_lock_frame:
  assumes "0 \<le> blob_id" "blob_id < int (length (m_blob_locks m))"
  shows "\<exists>m'. release_lock blob_id blob_offset m = Some m' \<and>
           current_blob_offset (m_blob_locks m' ! nat blob_id) = blob_offset \<and>
           locked (m_blob_locks m' ! nat blob_id) = False \<and>
           (\<forall>k. k \<noteq> nat blob_id \<longrightarrow> m_blob_locks m' ! k = m_blob_locks m ! k) \<and>
           length (m_blob_locks m') = length (m_blob_locks m) \<and>
           m_blob_index m' = m_blob_index m \<and>
           m_max_blob_size m' = m_max_blob_size m \<and>
           m_max_blobs m' = m_max_blobs m"
  using assms by (simp add: release_lock_def blob_at_def)

theorem release_lock_frame_witness:
  "release_lock 1 5
     \<lparr>m_max_blob_size = 1048576, m_max_blobs = 4, m_blob_index = 1,
      m_blob_locks = [\<lparr>locked = True, current_blob_offset = 3\<rparr>,
                      \<lparr>locked = True, current_blob_offset = 0\<rparr>]\<rparr> =
   Some \<lparr>m_max_blob_size = 1048576, m_max_blobs = 4, m_blob_index = 1,
         m_blob_locks = [\<lparr>locked = True, current_blob_offset = 3\<rparr>,
                         \<lparr>locked = False, current_blob_offset = 5\<rparr>]\<rparr>"
  using release_lock_frame [of 1
     "\<lparr>m_max_blob_size = 1048576, m_max_blobs = 4, m_blob_index = 1,
      m_blob_locks = [\<lparr>locked = True, current_blob_offset = 3\<rparr>,
                      \<lparr>locked = True, current_blob_offset = 0\<rparr>]\<rparr>" 5]
  by (simp add: release_lock_def blob_at_def)

section \<open>Requesting a blob\<close>

text \<open>
  Claim C10. The size a caller asks for has no influence: two calls of
  \<open>request_lock\<close> on the same manager with any two sizes give the same outcome (the
  same blob id or the same exception, or both undefined) and leave the same manager.
\<close>

theorem request_lock_ignores_size: "request_lock size1 m = request_lock size2 m"
  by (simp add: request_lock_def)

text \<open>
  Claim C8. A call of \<open>request_lock\<close> that throws, throws \<open>BlobLimitErr\<close> and
  leaves every record as it was: no lock flag differs from its value before the call.
  This holds for every manager, whatever its index.
\<close>

theorem failed_request_lock_locks_nothing:
  assumes "request_lock sz m = Some (Inl e, m')"
  shows "e = BlobLimitErr \<and> m_blob_locks m' = m_blob_locks m \<and>
         map locked (m_blob_locks m') = map locked (m_blob_locks m)"
  using request_lock_partial [OF assms] by auto

theorem failed_request_lock_locks_nothing_witness:
  "request_lock 7 (manager 1048576 2 0 [(False, 1048576), (True, 0)]) =
     Some (Inl BlobLimitErr, manager 1048576 2 1 [(False, 1048576), (True, 0)]) \<and>
   map locked (m_blob_locks (manager 1048576 2 1 [(False, 1048576), (True, 0)])) =
     map locked (m_blob_locks (manager 1048576 2 0 [(False, 1048576), (True, 0)])) \<and>
   map locked (m_blob_locks (manager 1048576 2 0 [(False, 1048576), (True, 0)])) = [False, True]"
  using failed_request_lock_locks_nothing [OF request_lock_example_limit]
    request_lock_example_limit
  by (simp add: manager_def)

text \<open>
  Claim C6. The index points into the vector (\<open>0 \<le> m_blob_index < m_blob_locks.size()\<close>)
  after construction. From a manager where it does, every \<open>request_lock\<close> has an
  outcome, a blob id or \<open>BlobLimitErr\<close>, and leaves the index in the vector; so does
  every \<open>release_lock\<close> of an id inside the vector, and so does every sequence of
  calls.
\<close>

theorem index_stays_in_range:
  "(\<forall>m. BlobManager mb initial_nblobs max_blobs = Inr m \<longrightarrow> index_in_range m) \<and>
   (index_in_range m \<longrightarrow> (\<exists>r m'. request_lock sz m = Some (r, m') \<and> index_in_range m')) \<and>
   (index_in_range m \<and> 0 \<le> blob_id \<and> blob_id < int (length (m_blob_locks m)) \<longrightarrow>
      (\<exists>m'. release_lock blob_id blob_offset m = Some m' \<and> index_in_range m')) \<and>
   (index_in_range m \<and> run calls m = (es, m2) \<longrightarrow> index_in_range m2)"
proof (intro conjI allI impI)
  fix m0 assume "BlobManager mb initial_nblobs max_blobs = Inr m0"
  then show "index_in_range m0"
    by (auto simp: BlobManager_def index_in_range_def split: if_splits)
next
  assume "index_in_range m"
  then show "\<exists>r m'. request_lock sz m = Some (r, m') \<and> index_in_range m'"
    by (rule request_lock_keeps_index_in_range)
next
  assume a: "index_in_range m \<and> 0 \<le> blob_id \<and> blob_id < int (length (m_blob_locks m))"
  then obtain m' where "release_lock blob_id blob_offset m = Some m'"
    by (auto simp: release_lock_def blob_at_def)
  then show "\<exists>m'. release_lock blob_id blob_offset m = Some m' \<and> index_in_range m'"
    using a release_lock_keeps_index_in_range by blast
next
  assume "index_in_range m \<and> run calls m = (es, m2)"
  then show "index_in_range m2"
    using run_keeps_index_in_range by blast
qed

theorem index_stays_in_range_witness:
  "BlobManager 2 2 4 = Inr (manager 2097152 4 0 [(False, 0), (False, 0)]) \<and>
   index_in_range (manager 2097152 4 0 [(False, 0), (False, 0)]) \<and>
   (\<exists>r m'. request_lock 0 (manager 2097152 4 0 [(False, 0), (False, 0)]) = Some (r, m') \<and>
      index_in_range m') \<and>
   (\<exists>m'. release_lock 1 5 (manager 2097152 4 0 [(False, 0), (False, 0)]) = Some m' \<and>
      index_in_range m') \<and>
   run [Request_lock 0, Request_lock 0, Request_lock 0] (manager 1048576 2 0 [(False, 0)]) =
     ([Returned 0, Returned 1, Thrown BlobLimitErr],
      manager 1048576 2 1 [(True, 0), (True, 0)]) \<and>
   index_in_range (manager 1048576 2 1 [(True, 0), (True, 0)])"
  using index_stays_in_range
      [where mb = "2" and initial_nblobs = "2" and max_blobs = "4"
         and m = "manager 2097152 4 0 [(False, 0), (False, 0)]" and sz = "0"
         and blob_id = "1" and blob_offset = "5" and calls = "[]"]
    index_stays_in_range
      [where m = "manager 1048576 2 0 [(False, 0)]"
         and calls = "[Request_lock 0, Request_lock 0, Request_lock 0]"
         and es = "[Returned 0, Returned 1, Thrown BlobLimitErr]"
         and ?m2.0 = "manager 1048576 2 1 [(True, 0), (True, 0)]"]
    run_example_grow
  by (simp add: BlobManager_def size_t_of_int_def numeral_2_eq_2 index_in_range_def manager_def
        del: run.simps)




lemma filter_update_count:
  assumes "j < length xs" "P (xs ! j)" "\<not> P y"
  shows "length (filter P (xs[j := y])) = length (filter P xs) - 1"
proof -
  have xs: "xs = take j xs @ xs ! j # drop (Suc j) xs"
    using assms(1) by (rule id_take_nth_drop)
  have upd: "xs[j := y] = take j xs @ y # drop (Suc j) xs"
    using assms(1) by (rule upd_conv_take_nth_drop)
  have "length (filter P xs) =
          length (filter P (take j xs)) + 1 + length (filter P (drop (Suc j) xs))"
    using assms(2) by (subst xs) simp
  moreover have "length (filter P (xs[j := y])) =
          length (filter P (take j xs)) + length (filter P (drop (Suc j) xs))"
    using assms(3) by (simp add: upd)
  ultimately show ?thesis by simp
qed

lemma request_lock_at_cap:
  assumes inv: "index_in_range m" and cap: "m_max_blobs m \<le> length (m_blob_locks m)"
  shows "\<exists>r m'. request_lock sz m = Some (r, m') \<and> index_in_range m' \<and>
           length (m_blob_locks m') = length (m_blob_locks m) \<and>
           m_max_blobs m' = m_max_blobs m \<and>
           available_count m' = available_count m - 1 \<and>
           (available_count m = 0 \<longrightarrow> r = Inl BlobLimitErr) \<and>
           (0 < available_count m \<longrightarrow> (\<exists>b. r = Inr b))"
  using request_lock_outcome [OF inv, of sz]
proof (elim disjE exE conjE)
  fix j
  assume j: "0 \<le> j" "j < int (length (m_blob_locks m))" "available m j"
    and r: "request_lock sz m =
              Some (Inr j, m\<lparr>m_blob_index := j,
                             m_blob_locks := (m_blob_locks m)[nat j :=
                               (m_blob_locks m ! nat j)\<lparr>locked := True\<rparr>]\<rparr>)"
  let ?m' = "m\<lparr>m_blob_index := j,
                m_blob_locks := (m_blob_locks m)[nat j :=
                  (m_blob_locks m ! nat j)\<lparr>locked := True\<rparr>]\<rparr>"
  have same: "unlocked_and_not_full ?m' = unlocked_and_not_full m"
    by (simp add: unlocked_and_not_full_def fun_eq_iff)
  have "nat j < length (m_blob_locks m)" using j by linarith
  moreover have "unlocked_and_not_full m (m_blob_locks m ! nat j)"
    using j(3) by (simp add: available_def)
  moreover have "\<not> unlocked_and_not_full m ((m_blob_locks m ! nat j)\<lparr>locked := True\<rparr>)"
    by (simp add: unlocked_and_not_full_def)
  ultimately have count: "available_count ?m' = available_count m - 1"
    by (simp add: available_count_def same filter_update_count)
  have "\<not> none_available m"
    using j by (auto dest: none_available_not_available)
  then have pos: "0 < available_count m"
    by (simp add: none_available_count)
  show ?thesis
    using r j count pos
    by (intro exI [of _ "Inr j"] exI [of _ ?m']) (simp add: index_in_range_def)
next
  assume na: "none_available m"
    and r: "request_lock sz m =
              (if m_max_blobs m \<le> length (m_blob_locks m)
               then Some (Inl BlobLimitErr, m\<lparr>m_blob_index := next_index m\<rparr>)
               else Some (Inr (int (length (m_blob_locks m))),
                          m\<lparr>m_blob_index := next_index m,
                            m_blob_locks := m_blob_locks m @
                              [\<lparr>locked = True, current_blob_offset = 0\<rparr>]\<rparr>))"
  have zero: "available_count m = 0" using na by (simp add: none_available_count)
  have same: "unlocked_and_not_full (m\<lparr>m_blob_index := next_index m\<rparr>) = unlocked_and_not_full m"
    by (simp add: fun_eq_iff)
  show ?thesis
    using r cap zero next_index_range [OF inv]
    by (intro exI [of _ "Inl BlobLimitErr"] exI [of _ "m\<lparr>m_blob_index := next_index m\<rparr>"])
       (simp add: index_in_range_def available_count_def same)
qed

lemma run_requests_at_cap:
  assumes "index_in_range m" "m_max_blobs m \<le> length (m_blob_locks m)"
    "run (map Request_lock sizes) m = (es, m')"
  shows "index_in_range m' \<and> m_max_blobs m' \<le> length (m_blob_locks m') \<and>
         available_count m' = available_count m - length sizes \<and>
         length es = length sizes \<and>
         (length sizes \<le> available_count m \<longrightarrow> (\<forall>e \<in> set es. \<exists>b. e = Returned b))"
  using assms
proof (induction sizes arbitrary: m es m')
  case Nil
  then show ?case by simp
next
  case (Cons sz sizes)
  from request_lock_at_cap [OF Cons.prems(1,2), of sz] obtain r m1 where
    r: "request_lock sz m = Some (r, m1)" and inv1: "index_in_range m1"
    and len1: "length (m_blob_locks m1) = length (m_blob_locks m)"
    and cap1: "m_max_blobs m1 = m_max_blobs m"
    and count1: "available_count m1 = available_count m - 1"
    and pos: "0 < available_count m \<longrightarrow> (\<exists>b. r = Inr b)"
    by auto
  obtain es1 m2 where run1: "run (map Request_lock sizes) m1 = (es1, m2)"
    by (cases "run (map Request_lock sizes) m1")
  have cap1': "m_max_blobs m1 \<le> length (m_blob_locks m1)"
    using Cons.prems(2) len1 cap1 by simp
  note ih = Cons.IH [OF inv1 cap1' run1]
  have es: "es = (case r of Inl e \<Rightarrow> Thrown e | Inr b \<Rightarrow> Returned b) # es1" and m': "m' = m2"
    using Cons.prems(3) r run1 by (auto split: sum.splits)
  have "\<forall>e \<in> set es. \<exists>b. e = Returned b" if "length (sz # sizes) \<le> available_count m"
  proof -
    from that have "0 < available_count m" "length sizes \<le> available_count m1"
      using count1 by simp_all
    then show ?thesis using pos ih es by auto
  qed
  then show ?case
    using ih es m' count1 by simp
qed

text \<open>
  The outcome of \<open>request_lock\<close> in terms of the manager's own members: it throws
  \<open>BlobLimitErr\<close> exactly when no record passes the test of the search and
  \<open>m_blob_locks.size() >= m_max_blobs\<close> holds as the code compares it.
\<close>

lemma request_lock_limit_state:
  "(index_in_range m \<longrightarrow>
      (\<exists>r m'. request_lock sz m = Some (r, m') \<and>
         (r = Inl BlobLimitErr \<longleftrightarrow>
          (\<forall>rec \<in> set (m_blob_locks m).
             locked rec \<or> m_max_blob_size m \<le> current_blob_offset rec) \<and>
          m_max_blobs m \<le> length (m_blob_locks m)))) \<and>
   (index_in_range m \<and>
    (\<forall>rec \<in> set (m_blob_locks m). \<not> locked rec \<and> current_blob_offset rec = 0) \<and>
    m_max_blobs m = length (m_blob_locks m) \<and>
    length sizes = length (m_blob_locks m) \<and>
    run (map Request_lock sizes) m = (es, m1) \<longrightarrow>
      length es = length sizes \<and>
      (0 < m_max_blob_size m \<longrightarrow> (\<forall>e \<in> set es. \<exists>b. e = Returned b)) \<and>
      (\<exists>m2. request_lock sz m1 = Some (Inl BlobLimitErr, m2)))"
proof (rule conjI; rule impI)
  assume inv: "index_in_range m"
  show "\<exists>r m'. request_lock sz m = Some (r, m') \<and>
         (r = Inl BlobLimitErr \<longleftrightarrow>
          (\<forall>rec \<in> set (m_blob_locks m).
             locked rec \<or> m_max_blob_size m \<le> current_blob_offset rec) \<and>
          m_max_blobs m \<le> length (m_blob_locks m))"
    unfolding none_available_alt [symmetric]
    using request_lock_outcome [OF inv, of sz]
    by (auto dest: none_available_not_available split: if_splits)
next
  assume a: "index_in_range m \<and>
    (\<forall>rec \<in> set (m_blob_locks m). \<not> locked rec \<and> current_blob_offset rec = 0) \<and>
    m_max_blobs m = length (m_blob_locks m) \<and>
    length sizes = length (m_blob_locks m) \<and>
    run (map Request_lock sizes) m = (es, m1)"
  then have inv: "index_in_range m" and cap: "m_max_blobs m \<le> length (m_blob_locks m)"
    and run: "run (map Request_lock sizes) m = (es, m1)"
    by simp_all
  note r = run_requests_at_cap [OF inv cap run]
  have "available_count m \<le> length (m_blob_locks m)"
    by (simp add: available_count_def)
  then have "available_count m1 = 0" using r a by simp
  then have na: "none_available m1" by (simp add: none_available_count)
  have all: "available_count m = length (m_blob_locks m)" if "0 < m_max_blob_size m"
    using a that by (simp add: available_count_def unlocked_and_not_full_def)
  show "length es = length sizes \<and>
      (0 < m_max_blob_size m \<longrightarrow> (\<forall>e \<in> set es. \<exists>b. e = Returned b)) \<and>
      (\<exists>m2. request_lock sz m1 = Some (Inl BlobLimitErr, m2))"
    using r all a request_lock_limit [OF _ na, of sz] by simp
qed

lemma request_lock_keeps_limits:
  assumes "request_lock sz m = Some (r, m')"
  shows "m_max_blobs m' = m_max_blobs m \<and> m_max_blob_size m' = m_max_blob_size m"
  using request_lock_partial [OF assms] by auto

lemma release_lock_keeps_limits:
  assumes "release_lock j blob_offset m = Some m'"
  shows "m_max_blobs m' = m_max_blobs m \<and> m_max_blob_size m' = m_max_blob_size m"
  using assms by (auto simp: release_lock_def split: option.splits)

lemma run_keeps_limits:
  assumes "run calls m = (es, m')"
  shows "m_max_blobs m' = m_max_blobs m \<and> m_max_blob_size m' = m_max_blob_size m"
  using assms
proof (induction calls arbitrary: m es m')
  case Nil
  then show ?case by simp
next
  case (Cons c calls)
  show ?case
  proof (cases c)
    case (Request_lock sz)
    show ?thesis
    proof (cases "request_lock sz m")
      case None
      then show ?thesis using Cons.prems Request_lock by auto
    next
      case (Some p)
      obtain r m1 where p: "p = (r, m1)" by (cases p)
      obtain es1 m2 where run1: "run calls m1 = (es1, m2)" by (cases "run calls m1")
      have "m' = m2"
        using Cons.prems Request_lock Some p run1 by (cases r) auto
      then show ?thesis
        using Cons.IH [OF run1] request_lock_keeps_limits [OF Some [unfolded p]] by simp
    qed
  next
    case (Release_lock j blob_offset)
    show ?thesis
    proof (cases "release_lock j blob_offset m")
      case None
      then show ?thesis using Cons.prems Release_lock by auto
    next
      case (Some m1)
      obtain es1 m2 where run1: "run calls m1 = (es1, m2)" by (cases "run calls m1")
      have "m' = m2"
        using Cons.prems Release_lock Some run1 by auto
      then show ?thesis
        using Cons.IH [OF run1] release_lock_keeps_limits [OF Some] by simp
    qed
  qed
qed

lemma full_as_integers:
  fixes S off :: "64 word"
  assumes "0 \<le> sint S"
  shows "S \<le> off \<longleftrightarrow> sint S \<le> uint off"
proof -
  have "sint S < 2 ^ 64"
    using sint_less [of S] by simp
  then have "take_bit 64 (sint S) = sint S"
    using assms by (intro take_bit_int_eq_self) simp_all
  then have "uint S = sint S"
    using uint_sint [of S] by simp
  then show ?thesis by (simp add: word_le_def)
qed

lemma size_t_of_int_id: "0 \<le> i \<Longrightarrow> i < 2 ^ 64 \<Longrightarrow> int (size_t_of_int i) = i"
  by (simp add: size_t_of_int_def)

text \<open>
  Claim C2, as amended. Let the manager be constructed with \<open>max_blobs \<ge> 0\<close> (and
  below \<open>2^64\<close>, as every \<open>int\<close> is), and let any sequence of calls follow. If the
  maximal blob size is not negative as an \<open>int64\<close>, then \<open>request_lock\<close> has an
  outcome, and it throws \<open>BlobLimitErr\<close> if and only if every record is locked or
  full (its offset is at least the maximal size, as integers) and the number of records
  has reached \<open>max_blobs\<close>. In particular, whatever the maximal size: from N unlocked
  records with offset 0 and \<open>max_blobs = N\<close>, after N calls of \<open>request_lock\<close> and
  no release (each of which returns a blob id when the maximal size is not 0), the next
  call throws \<open>BlobLimitErr\<close>.
\<close>

theorem request_lock_limit_iff:
  assumes "BlobManager mb initial_nblobs max_blobs = Inr m0" and "run calls m0 = (es0, m)"
    and "0 \<le> max_blobs" and "max_blobs < 2 ^ 64"
  shows
    "(0 \<le> sint (max_blob_size m) \<longrightarrow>
        (\<exists>r m'. request_lock sz m = Some (r, m') \<and>
           (r = Inl BlobLimitErr \<longleftrightarrow>
            (\<forall>rec \<in> set (m_blob_locks m).
               locked rec \<or> sint (max_blob_size m) \<le> uint (current_blob_offset rec)) \<and>
            max_blobs \<le> int (num_blobs m)))) \<and>
     ((\<forall>rec \<in> set (m_blob_locks m). \<not> locked rec \<and> current_blob_offset rec = 0) \<and>
      max_blobs = int (num_blobs m) \<and>
      length sizes = num_blobs m \<and>
      run (map Request_lock sizes) m = (es, m1) \<longrightarrow>
        length es = length sizes \<and>
        (0 < max_blob_size m \<longrightarrow> (\<forall>e \<in> set es. \<exists>b. e = Returned b)) \<and>
        (\<exists>m2. request_lock sz m1 = Some (Inl BlobLimitErr, m2)))"
proof -
  have "index_in_range m0"
    using assms(1) by (auto simp: BlobManager_def index_in_range_def split: if_splits)
  then have inv: "index_in_range m"
    using assms(2) by (rule run_keeps_index_in_range)
  have "m_max_blobs m0 = size_t_of_int max_blobs"
    using assms(1) by (auto simp: BlobManager_def split: if_splits)
  then have "m_max_blobs m = size_t_of_int max_blobs"
    using run_keeps_limits [OF assms(2)] by simp
  then have cap: "int (m_max_blobs m) = max_blobs"
    using assms(3,4) by (simp add: size_t_of_int_id)
  have reached: "m_max_blobs m \<le> length (m_blob_locks m) \<longleftrightarrow> max_blobs \<le> int (num_blobs m)"
    using cap by (auto simp: num_blobs_def)
  have equal: "m_max_blobs m = length (m_blob_locks m) \<longleftrightarrow> max_blobs = int (num_blobs m)"
    using cap by (auto simp: num_blobs_def)
  note state = request_lock_limit_state [of m sz sizes es m1]
  show ?thesis
  proof (rule conjI; rule impI)
    assume nonneg: "0 \<le> sint (max_blob_size m)"
    have full: "m_max_blob_size m \<le> off \<longleftrightarrow> sint (max_blob_size m) \<le> uint off" for off
      using nonneg by (simp add: max_blob_size_def full_as_integers)
    from state inv obtain r m' where r: "request_lock sz m = Some (r, m')"
      and iff: "r = Inl BlobLimitErr \<longleftrightarrow>
          (\<forall>rec \<in> set (m_blob_locks m).
             locked rec \<or> m_max_blob_size m \<le> current_blob_offset rec) \<and>
          m_max_blobs m \<le> length (m_blob_locks m)"
      by blast
    show "\<exists>r m'. request_lock sz m = Some (r, m') \<and>
           (r = Inl BlobLimitErr \<longleftrightarrow>
            (\<forall>rec \<in> set (m_blob_locks m).
               locked rec \<or> sint (max_blob_size m) \<le> uint (current_blob_offset rec)) \<and>
            max_blobs \<le> int (num_blobs m))"
      using r iff unfolding full reached by blast
  next
    assume "(\<forall>rec \<in> set (m_blob_locks m). \<not> locked rec \<and> current_blob_offset rec = 0) \<and>
      max_blobs = int (num_blobs m) \<and>
      length sizes = num_blobs m \<and>
      run (map Request_lock sizes) m = (es, m1)"
    then show "length es = length sizes \<and>
        (0 < max_blob_size m \<longrightarrow> (\<forall>e \<in> set es. \<exists>b. e = Returned b)) \<and>
        (\<exists>m2. request_lock sz m1 = Some (Inl BlobLimitErr, m2))"
      using state inv equal by (simp add: num_blobs_def max_blob_size_def)
  qed
qed

theorem request_lock_limit_iff_witness:
  "BlobManager 1 2 2 = Inr (manager 1048576 2 0 [(False, 0), (False, 0)]) \<and>
   run (map Request_lock [0, 0]) (manager 1048576 2 0 [(False, 0), (False, 0)]) =
     ([Returned 1, Returned 0], manager 1048576 2 0 [(True, 0), (True, 0)]) \<and>
   (\<exists>r m'. request_lock 3 (manager 1048576 2 0 [(False, 0), (False, 0)]) = Some (r, m') \<and>
      r \<noteq> Inl BlobLimitErr) \<and>
   (\<exists>m'. request_lock 3 (manager 1048576 2 0 [(True, 0), (True, 0)]) =
      Some (Inl BlobLimitErr, m'))"
  using request_lock_limit_iff
      [OF BlobManager_1_2_2 run_nothing, where sz = "3" and sizes = "[0, 0]"
         and es = "[Returned 1, Returned 0]"
         and ?m1.0 = "manager 1048576 2 0 [(True, 0), (True, 0)]"]
    request_lock_limit_iff
      [OF BlobManager_1_2_2 run_example_fill, where sz = "3"]
    BlobManager_1_2_2 run_example_fill
  by (simp add: manager_def max_blob_size_def num_blobs_def del: run.simps)

text \<open>
  Claim C2 as the spec states it has no condition on the two limits. The code compares
  both as unsigned values. With \<open>max_blobs = -1\<close> the only record is locked after the
  first call and the number of records, 1, is at least \<open>-1\<close>, yet the second call
  appends a record and returns its id. With a maximal size of \<open>-1\<close> megabytes and
  \<open>max_blobs = 1\<close> the only record has offset 0, which is at least the maximal size
  \<open>-1048576\<close>, and the number of records has reached \<open>max_blobs\<close>, yet the call
  returns blob 0.
\<close>

theorem negative_limits_not_reached:
  "BlobManager 1 1 (- 1) = Inr (manager 1048576 18446744073709551615 0 [(False, 0)]) \<and>
   request_lock 0 (manager 1048576 18446744073709551615 0 [(False, 0)]) =
     Some (Inr 0, manager 1048576 18446744073709551615 0 [(True, 0)]) \<and>
   map locked (m_blob_locks (manager 1048576 18446744073709551615 0 [(True, 0)])) = [True] \<and>
   (- 1 :: int) \<le> int (num_blobs (manager 1048576 18446744073709551615 0 [(True, 0)])) \<and>
   request_lock 0 (manager 1048576 18446744073709551615 0 [(True, 0)]) =
     Some (Inr 1, manager 1048576 18446744073709551615 0 [(True, 0), (True, 0)]) \<and>
   BlobManager (- 1) 1 1 = Inr (manager (- 1048576) 1 0 [(False, 0)]) \<and>
   sint (max_blob_size (manager (- 1048576) 1 0 [(False, 0)])) = - 1048576 \<and>
   map current_blob_offset (m_blob_locks (manager (- 1048576) 1 0 [(False, 0)])) = [0] \<and>
   m_max_blobs (manager (- 1048576) 1 0 [(False, 0)]) = 1 \<and>
   num_blobs (manager (- 1048576) 1 0 [(False, 0)]) = 1 \<and>
   request_lock 0 (manager (- 1048576) 1 0 [(False, 0)]) =
     Some (Inr 0, manager (- 1048576) 1 0 [(True, 0)])"
  by (intro conjI BlobManager_negative_max_blobs request_lock_negative_max_blobs_1
        request_lock_negative_max_blobs_2 BlobManager_negative_size request_lock_negative_size)
     (simp_all add: manager_def num_blobs_def max_blob_size_def)

section \<open>Sequences of calls\<close>

lemma request_lock_locks_result:
  assumes "request_lock sz m = Some (Inr b, m1)"
  shows "blob_locked m1 b"
  using request_lock_partial [OF assms]
  by (auto simp: blob_locked_def blob_at_def nth_append)

lemma request_lock_other:
  assumes "blob_locked m b" "request_lock sz m = Some (r, m')"
  shows "r \<noteq> Inr b \<and> blob_locked m' b"
proof -
  from assms(1) have b: "0 \<le> b" "b < int (length (m_blob_locks m))"
    "locked (m_blob_locks m ! nat b)"
    by (auto simp: blob_locked_def blob_at_def split: if_splits)
  from request_lock_partial [OF assms(2)] show ?thesis
  proof (elim disjE conjE exE)
    fix j assume "r = Inl BlobLimitErr" "m' = m\<lparr>m_blob_index := j\<rparr>"
    then show ?thesis using assms(1) by (simp add: blob_locked_def)
  next
    fix c assume c: "r = Inr c" "0 \<le> c" "c < int (length (m_blob_locks m))" "available m c"
      and m': "m' = m\<lparr>m_blob_index := c,
                     m_blob_locks := (m_blob_locks m)[nat c :=
                       (m_blob_locks m ! nat c)\<lparr>locked := True\<rparr>]\<rparr>"
    have "c \<noteq> b"
      using c(4) b(3) by (auto simp: available_def unlocked_and_not_full_def)
    then have "nat c \<noteq> nat b" using c(2) b(1) by simp
    then show ?thesis
      using b c m' \<open>c \<noteq> b\<close> by (simp add: blob_locked_def blob_at_def)
  next
    fix j assume "r = Inr (int (length (m_blob_locks m)))"
      "m' = m\<lparr>m_blob_index := j,
               m_blob_locks := m_blob_locks m @ [\<lparr>locked = True, current_blob_offset = 0\<rparr>]\<rparr>"
    then show ?thesis
      using b by (auto simp: blob_locked_def blob_at_def nth_append)
  qed
qed

lemma release_lock_other:
  assumes "blob_locked m b" "release_lock j blob_offset m = Some m'" "j \<noteq> b"
  shows "blob_locked m' b"
  using assms
  by (auto simp: blob_locked_def release_lock_def blob_at_def split: option.splits if_splits)

lemma run_keeps_lock:
  assumes "blob_locked m b" "\<forall>blob_offset. Release_lock b blob_offset \<notin> set calls"
    "run calls m = (es, m')"
  shows "Returned b \<notin> set es \<and> blob_locked m' b"
  using assms
proof (induction calls arbitrary: m es m')
  case Nil
  then show ?case by simp
next
  case (Cons c calls)
  show ?case
  proof (cases c)
    case (Request_lock sz)
    show ?thesis
    proof (cases "request_lock sz m")
      case None
      then show ?thesis using Cons.prems Request_lock by auto
    next
      case (Some p)
      obtain r m1 where p: "p = (r, m1)" by (cases p)
      obtain es1 m2 where run1: "run calls m1 = (es1, m2)" by (cases "run calls m1")
      from request_lock_other [OF Cons.prems(1) Some [unfolded p]]
      have r: "r \<noteq> Inr b" and l: "blob_locked m1 b" by simp_all
      from Cons.IH [OF l _ run1] Cons.prems(2)
      have ih: "Returned b \<notin> set es1 \<and> blob_locked m2 b" by simp
      show ?thesis
        using Cons.prems(3) Request_lock Some p run1 r ih
        by (cases r) auto
    qed
  next
    case (Release_lock j blob_offset)
    then have j: "j \<noteq> b" using Cons.prems(2) by auto
    show ?thesis
    proof (cases "release_lock j blob_offset m")
      case None
      then show ?thesis using Cons.prems Release_lock by auto
    next
      case (Some m1)
      obtain es1 m2 where run1: "run calls m1 = (es1, m2)" by (cases "run calls m1")
      from release_lock_other [OF Cons.prems(1) Some j] have l: "blob_locked m1 b" .
      from Cons.IH [OF l _ run1] Cons.prems(2)
      have ih: "Returned b \<notin> set es1 \<and> blob_locked m2 b" by simp
      show ?thesis
        using Cons.prems(3) Release_lock Some run1 ih by auto
    qed
  qed
qed

text \<open>
  Claim C1. Let \<open>request_lock\<close> return a blob id. Then that blob is locked, and in
  every sequence of calls that follows and has no \<open>release_lock\<close> for this id, no
  \<open>request_lock\<close> returns the id again and the blob is still locked at the end. The
  sequence is arbitrary, so the same holds at each of its prefixes.
\<close>

theorem locked_until_released:
  assumes "request_lock sz m = Some (Inr blob_id, m1)"
    and "\<forall>blob_offset. Release_lock blob_id blob_offset \<notin> set calls"
    and "run calls m1 = (es, m2)"
  shows "blob_locked m1 blob_id \<and> Returned blob_id \<notin> set es \<and> blob_locked m2 blob_id"
  using request_lock_locks_result [OF assms(1)]
    run_keeps_lock [OF request_lock_locks_result [OF assms(1)] assms(2,3)]
  by simp

theorem locked_until_released_witness:
  "request_lock 0 (manager 1048576 3 0 [(False, 0), (False, 0), (False, 0)]) =
     Some (Inr 1, manager 1048576 3 1 [(False, 0), (True, 0), (False, 0)]) \<and>
   run [Request_lock 0, Release_lock 2 7, Request_lock 0]
     (manager 1048576 3 1 [(False, 0), (True, 0), (False, 0)]) =
     ([Returned 2, Released, Returned 0],
      manager 1048576 3 0 [(True, 0), (True, 0), (False, 7)]) \<and>
   blob_locked (manager 1048576 3 1 [(False, 0), (True, 0), (False, 0)]) 1 \<and>
   Returned 1 \<notin> set [Returned 2, Released, Returned 0] \<and>
   blob_locked (manager 1048576 3 0 [(True, 0), (True, 0), (False, 7)]) 1"
  using locked_until_released [OF request_lock_example_1 _ run_example]
    request_lock_example_1 run_example
  by (simp del: run.simps)

lemma request_lock_bounded:
  assumes "length (m_blob_locks m) \<le> K" "m_max_blobs m \<le> K" "request_lock sz m = Some (r, m')"
  shows "length (m_blob_locks m') \<le> K \<and> m_max_blobs m' = m_max_blobs m"
  using request_lock_partial [OF assms(3)] assms(1,2) by auto

lemma release_lock_bounded:
  assumes "length (m_blob_locks m) \<le> K" "release_lock j blob_offset m = Some m'"
  shows "length (m_blob_locks m') \<le> K \<and> m_max_blobs m' = m_max_blobs m"
  using assms by (auto simp: release_lock_def split: option.splits)

lemma run_bounded:
  assumes "length (m_blob_locks m) \<le> K" "m_max_blobs m \<le> K" "run calls m = (es, m')"
  shows "length (m_blob_locks m') \<le> K \<and> m_max_blobs m' = m_max_blobs m"
  using assms
proof (induction calls arbitrary: m es m')
  case Nil
  then show ?case by simp
next
  case (Cons c calls)
  show ?case
  proof (cases c)
    case (Request_lock sz)
    show ?thesis
    proof (cases "request_lock sz m")
      case None
      then show ?thesis using Cons.prems Request_lock by auto
    next
      case (Some p)
      obtain r m1 where p: "p = (r, m1)" by (cases p)
      obtain es1 m2 where run1: "run calls m1 = (es1, m2)" by (cases "run calls m1")
      from request_lock_bounded [OF Cons.prems(1,2) Some [unfolded p]]
      have b: "length (m_blob_locks m1) \<le> K" "m_max_blobs m1 = m_max_blobs m" by simp_all
      from Cons.IH [OF b(1) _ run1] b(2) Cons.prems(2)
      have "length (m_blob_locks m2) \<le> K \<and> m_max_blobs m2 = m_max_blobs m" by simp
      then show ?thesis
        using Cons.prems(3) Request_lock Some p run1 by (cases r) auto
    qed
  next
    case (Release_lock j blob_offset)
    show ?thesis
    proof (cases "release_lock j blob_offset m")
      case None
      then show ?thesis using Cons.prems Release_lock by auto
    next
      case (Some m1)
      obtain es1 m2 where run1: "run calls m1 = (es1, m2)" by (cases "run calls m1")
      from release_lock_bounded [OF Cons.prems(1) Some]
      have b: "length (m_blob_locks m1) \<le> K" "m_max_blobs m1 = m_max_blobs m" by simp_all
      from Cons.IH [OF b(1) _ run1] b(2) Cons.prems(2)
      have "length (m_blob_locks m2) \<le> K \<and> m_max_blobs m2 = m_max_blobs m" by simp
      then show ?thesis
        using Cons.prems(3) Release_lock Some run1 by auto
    qed
  qed
qed

text \<open>
  Claim C5, as amended. For a manager constructed with
  \<open>1 \<le> initial_nblobs \<le> max_blobs\<close>, the number of blobs never exceeds
  \<open>max_blobs\<close>, whatever sequence of calls follows.
\<close>

theorem num_blobs_bounded:
  assumes "1 \<le> initial_nblobs" "initial_nblobs \<le> max_blobs"
    and "BlobManager mb initial_nblobs max_blobs = Inr m0"
    and "run calls m0 = (es, m)"
  shows "int (num_blobs m) \<le> max_blobs"
proof -
  have m0: "length (m_blob_locks m0) = nat initial_nblobs"
    "m_max_blobs m0 = size_t_of_int max_blobs"
    using assms(1,3) by (auto simp: BlobManager_def)
  have "max_blobs mod 2 ^ 64 \<le> max_blobs"
    using assms(1,2) by (intro zmod_le_nonneg_dividend) simp
  then have "m_max_blobs m0 \<le> nat max_blobs"
    by (simp add: m0 size_t_of_int_def)
  moreover have "length (m_blob_locks m0) \<le> nat max_blobs"
    using assms(2) by (simp add: m0)
  ultimately have "length (m_blob_locks m) \<le> nat max_blobs"
    using run_bounded [OF _ _ assms(4)] by blast
  then show ?thesis using assms(1,2) by (simp add: num_blobs_def)
qed

theorem num_blobs_bounded_witness:
  "BlobManager 1 1 2 = Inr (manager 1048576 2 0 [(False, 0)]) \<and>
   run [Request_lock 0, Request_lock 0, Request_lock 0] (manager 1048576 2 0 [(False, 0)]) =
     ([Returned 0, Returned 1, Thrown BlobLimitErr],
      manager 1048576 2 1 [(True, 0), (True, 0)]) \<and>
   int (num_blobs (manager 1048576 2 1 [(True, 0), (True, 0)])) \<le> 2"
  using num_blobs_bounded [OF _ _ BlobManager_1_1_2 run_example_grow]
    BlobManager_1_1_2 run_example_grow
  by (simp del: run.simps)

text \<open>
  Claim C5 as the spec states it asks only for \<open>initial_nblobs \<ge> 1\<close>. The constructor
  does not compare the two counts: with 2 initial blobs and at most 1 blob, the manager
  starts with 2 blobs, more than \<open>m_max_blobs\<close>.
\<close>

theorem num_blobs_exceeds_max_blobs:
  "BlobManager 1 2 1 = Inr (manager 1048576 1 0 [(False, 0), (False, 0)]) \<and>
   m_max_blobs (manager 1048576 1 0 [(False, 0), (False, 0)]) = 1 \<and>
   num_blobs (manager 1048576 1 0 [(False, 0), (False, 0)]) = 2 \<and>
   \<not> num_blobs (manager 1048576 1 0 [(False, 0), (False, 0)])
       \<le> m_max_blobs (manager 1048576 1 0 [(False, 0), (False, 0)])"
  by (simp add: BlobManager_1_2_1) (simp add: manager_def num_blobs_def)

lemma map_upt_Suc_shift: "map f [0..<Suc l] = f 0 # map (\<lambda>k. f (Suc k)) [0..<l]"
  by (induction l) simp_all

lemma cycle_inj:
  fixes n c :: int
  assumes "(c + int a) mod n = (c + int b) mod n" "int a < n" "int b < n"
  shows "a = b"
proof (rule ccontr)
  assume "a \<noteq> b"
  then have ne: "int a - int b \<noteq> 0" by simp
  have "n dvd (c + int a) - (c + int b)"
    using assms(1) by (simp add: mod_eq_dvd_iff)
  then have "n dvd int a - int b" by simp
  from dvd_imp_le_int [OF ne this] have "\<bar>n\<bar> \<le> \<bar>int a - int b\<bar>" .
  then show False using assms(2,3) by linarith
qed

lemma distinct_cycle:
  fixes n c :: int
  assumes "int l \<le> n"
  shows "distinct (map (\<lambda>k. (c + int k) mod n) [0..<l])"
proof -
  have "inj_on (\<lambda>k. (c + int k) mod n) (set [0..<l])"
  proof (rule inj_onI)
    fix a b assume "a \<in> set [0..<l]" "b \<in> set [0..<l]"
      and "(c + int a) mod n = (c + int b) mod n"
    then show "a = b" using assms by (intro cycle_inj [of c a n b]) simp_all
  qed
  then show ?thesis by (simp add: distinct_map)
qed

lemma next_index_mod:
  assumes "index_in_range m"
  shows "next_index m = (m_blob_index m + 1) mod int (length (m_blob_locks m))"
proof (cases "int (length (m_blob_locks m)) \<le> m_blob_index m + 1")
  case True
  then have "m_blob_index m + 1 = int (length (m_blob_locks m))"
    using assms by (simp add: index_in_range_def)
  then show ?thesis using True by (simp add: next_index_eq)
next
  case False
  then show ?thesis using assms by (simp add: next_index_eq index_in_range_def)
qed

lemma round_robin_ids:
  assumes "index_in_range m"
    and "\<forall>rec \<in> set (m_blob_locks m). unlocked_and_not_full m rec"
    and "\<forall>(sz, blob_offset) \<in> set rounds. blob_offset < m_max_blob_size m"
  shows "\<exists>m'. request_release rounds m =
           Some (map (\<lambda>k. (m_blob_index m + 1 + int k) mod int (length (m_blob_locks m)))
                   [0..<length rounds], m')"
  using assms
proof (induction rounds arbitrary: m)
  case Nil
  then show ?case by simp
next
  case (Cons round rounds)
  obtain sz blob_offset where round: "round = (sz, blob_offset)" by (cases round)
  define n where "n = int (length (m_blob_locks m))"
  define j where "j = next_index m"
  have j: "0 \<le> j" "j < n" and jmod: "j = (m_blob_index m + 1) mod n"
    using next_index_range [OF Cons.prems(1)] next_index_mod [OF Cons.prems(1)]
    by (simp_all add: j_def n_def)
  have "nat j < length (m_blob_locks m)" using j by (simp add: n_def)
  then have "m_blob_locks m ! nat j \<in> set (m_blob_locks m)" by (rule nth_mem)
  then have av: "available m (next_index m)"
    using Cons.prems(2) by (simp add: available_def j_def)
  define m1 where "m1 = m\<lparr>m_blob_index := j,
      m_blob_locks := (m_blob_locks m)[nat j := (m_blob_locks m ! nat j)\<lparr>locked := True\<rparr>]\<rparr>"
  define m2 where "m2 = m\<lparr>m_blob_index := j,
      m_blob_locks := (m_blob_locks m)[nat j :=
        \<lparr>locked = False, current_blob_offset = blob_offset\<rparr>]\<rparr>"
  have r1: "request_lock sz m = Some (Inr j, m1)"
    using request_lock_first [OF Cons.prems(1) av, of sz] by (simp add: j_def m1_def)
  have r2: "release_lock j blob_offset m1 = Some m2"
    using j by (simp add: release_lock_def blob_at_def m1_def m2_def n_def BlobRecord_overwrite)
  have off: "blob_offset < m_max_blob_size m"
    using Cons.prems(3) round by simp
  have inv2: "index_in_range m2"
    using j by (simp add: index_in_range_def m2_def n_def)
  have all2: "\<forall>rec \<in> set (m_blob_locks m2). unlocked_and_not_full m2 rec"
  proof
    fix rec assume "rec \<in> set (m_blob_locks m2)"
    then have "rec = \<lparr>locked = False, current_blob_offset = blob_offset\<rparr> \<or>
               rec \<in> set (m_blob_locks m)"
      using set_update_subset_insert [of "m_blob_locks m" "nat j"]
      by (auto simp: m2_def)
    then show "unlocked_and_not_full m2 rec"
      using off Cons.prems(2) by (auto simp: unlocked_and_not_full_def m2_def)
  qed
  have rest2: "\<forall>(sz, blob_offset) \<in> set rounds. blob_offset < m_max_blob_size m2"
    using Cons.prems(3) by (simp add: m2_def)
  from Cons.IH [OF inv2 all2 rest2] obtain m' where
    ih: "request_release rounds m2 =
           Some (map (\<lambda>k. (j + 1 + int k) mod n) [0..<length rounds], m')"
    by (auto simp: m2_def n_def)
  have shift: "(j + 1 + int k) mod n = (m_blob_index m + 1 + int (Suc k)) mod n" for k
  proof -
    have "(j + (1 + int k)) mod n = (m_blob_index m + 1 + (1 + int k)) mod n"
      unfolding jmod by (rule mod_add_left_eq)
    then show ?thesis by (simp add: add.assoc)
  qed
  let ?f = "\<lambda>k. (m_blob_index m + 1 + int k) mod n"
  have "map ?f [0..<length (round # rounds)] = ?f 0 # map (\<lambda>k. ?f (Suc k)) [0..<length rounds]"
    using map_upt_Suc_shift [of ?f "length rounds"] by (simp del: upt_Suc)
  also have "?f 0 = j" by (simp add: jmod)
  also have "map (\<lambda>k. ?f (Suc k)) [0..<length rounds] =
             map (\<lambda>k. (j + 1 + int k) mod n) [0..<length rounds]"
    by (simp only: shift)
  finally have ids: "map ?f [0..<length (round # rounds)] =
                     j # map (\<lambda>k. (j + 1 + int k) mod n) [0..<length rounds]" .
  have "request_release (round # rounds) m =
          Some (j # map (\<lambda>k. (j + 1 + int k) mod n) [0..<length rounds], m')"
    by (simp add: round r1 r2 ih)
  then have "request_release (round # rounds) m =
          Some (map ?f [0..<length (round # rounds)], m')"
    by (simp only: ids)
  then show ?case unfolding n_def by blast
qed

text \<open>
  Claim C4. Let the index point into the vector of n records, all unlocked and none
  full, and let each \<open>request_lock\<close> be followed at once by the \<open>release_lock\<close> of
  the id it returned, with an offset below the maximal size. Then the k-th call
  (counting from 0) returns the id \<open>(m_blob_index + 1 + k) mod n\<close>: one position
  further per call, wrapping at n. The first n ids are pairwise distinct.
\<close>

theorem round_robin:
  assumes "index_in_range m"
    and "\<forall>rec \<in> set (m_blob_locks m). unlocked_and_not_full m rec"
    and "\<forall>(sz, blob_offset) \<in> set rounds. blob_offset < m_max_blob_size m"
  shows "\<exists>ids m'. request_release rounds m = Some (ids, m') \<and>
           ids = map (\<lambda>k. (m_blob_index m + 1 + int k) mod int (length (m_blob_locks m)))
                   [0..<length rounds] \<and>
           (length rounds \<le> length (m_blob_locks m) \<longrightarrow> distinct ids)"
  using round_robin_ids [OF assms]
    distinct_cycle [of "length rounds" "int (length (m_blob_locks m))" "m_blob_index m + 1"]
  by auto

theorem round_robin_witness:
  "index_in_range (manager 1048576 3 0 [(False, 0), (False, 0), (False, 0)]) \<and>
   (\<exists>m'. request_release [(0, 1), (0, 2), (0, 3)]
           (manager 1048576 3 0 [(False, 0), (False, 0), (False, 0)]) = Some ([1, 2, 0], m')) \<and>
   distinct [1, 2, 0 :: int] \<and>
   (\<exists>m'. request_release [(0, 1), (0, 2), (0, 3), (0, 4)]
           (manager 1048576 3 0 [(False, 0), (False, 0), (False, 0)]) =
         Some ([1, 2, 0, 1], m'))"
  using round_robin
      [of "manager 1048576 3 0 [(False, 0), (False, 0), (False, 0)]" "[(0, 1), (0, 2), (0, 3)]"]
    round_robin
      [of "manager 1048576 3 0 [(False, 0), (False, 0), (False, 0)]"
          "[(0, 1), (0, 2), (0, 3), (0, 4)]"]
  by (simp add: index_in_range_def unlocked_and_not_full_def manager_def)

end
